theory Spec2Isabelle
  imports Main "HOL-Library.Product_Lexorder" "HOL-Library.Multiset"
begin

section \<open>Data model of ClangCoverage.py\<close>

text \<open>
  \<^verbatim>\<open>Segment = namedtuple('Segment', 'line col count hasCount isRegionEntry')\<close>.
  Python integers are unbounded, so the three numeric fields are \<open>int\<close>.
\<close>

record Segment =
  line :: int
  col :: int
  count :: int
  hasCount :: bool
  isRegionEntry :: bool

text \<open>
  A Python dictionary keeps its keys unique and remembers the order of insertion; it is
  an association list here, with the operations the source uses written out.
\<close>

type_synonym 'v dict = "(int \<times> 'v) list"

text \<open>The attributes that \<^verbatim>\<open>FileMapping.__init__\<close> sets on \<^verbatim>\<open>self\<close>.\<close>

record FileMapping =
  name :: string
  segments :: "Segment list"
  segmentsForLine :: "Segment list dict"
  lineCounts :: "int dict"
  maxCount :: int

text \<open>The only exception the constructor's own code could raise: \<^verbatim>\<open>prioritized[0]\<close>.\<close>

datatype error = IndexError

text \<open>\<^verbatim>\<open>sublime.Region(start, end)\<close>, over whatever \<^verbatim>\<open>view.text_point\<close> returns.\<close>

datatype 'p Region = Region 'p 'p

section \<open>Python primitives used by the source\<close>

text \<open>\<^verbatim>\<open>range(start, end)\<close> over integers: empty when \<open>end \<le> start\<close>.\<close>

definition py_range :: "int \<Rightarrow> int \<Rightarrow> int list" where
  "py_range start end = [start..end - 1]"

text \<open>
  \<^verbatim>\<open>sorted(xs, key = f)\<close> is a stable sort, as \<^const>\<open>sort_key\<close> is.
  \<^verbatim>\<open>sorted(xs, key = f, reverse = True)\<close> keeps the original order of elements with
  equal keys as well: it reverses, sorts stably and reverses again.
\<close>

definition sorted_reverse :: "('a \<Rightarrow> 'k::linorder) \<Rightarrow> 'a list \<Rightarrow> 'a list" where
  "sorted_reverse f xs = rev (sort_key f (rev xs))"

text \<open>
  \<^verbatim>\<open>d[k].append(v)\<close> on a \<^verbatim>\<open>defaultdict(list)\<close>: a missing key is inserted, at
  the end, with the list \<^verbatim>\<open>[v]\<close>.
\<close>

fun dict_append :: "int \<Rightarrow> 'v \<Rightarrow> 'v list dict \<Rightarrow> 'v list dict" where
  "dict_append k v [] = [(k, [v])]"
| "dict_append k v ((k', vs) # d) =
     (if k' = k then (k', vs @ [v]) # d else (k', vs) # dict_append k v d)"

text \<open>\<^verbatim>\<open>d[k] = v\<close>: an existing key keeps its place, a new one goes to the end.\<close>

fun dict_set :: "int \<Rightarrow> 'v \<Rightarrow> 'v dict \<Rightarrow> 'v dict" where
  "dict_set k v [] = [(k, v)]"
| "dict_set k v ((k', v') # d) =
     (if k' = k then (k', v) # d else (k', v') # dict_set k v d)"

section \<open>\<^verbatim>\<open>FileMapping.__init__\<close>\<close>

text \<open>The key of line 12: \<^verbatim>\<open>lambda x: (x.line, x.col)\<close>.\<close>

definition position :: "Segment \<Rightarrow> int \<times> int" where
  "position x = (line x, col x)"

text \<open>
  Lines 16 to 25: the loop over the sorted segments, with \<^verbatim>\<open>prev_seg\<close> and
  \<^verbatim>\<open>self.segmentsForLine\<close> as the state.
\<close>

fun register_segments ::
  "Segment option \<Rightarrow> Segment list \<Rightarrow> Segment list dict \<Rightarrow> Segment list dict" where
  "register_segments prev_seg [] d = d"
| "register_segments prev_seg (seg # segs) d =
     (case prev_seg of
        None \<Rightarrow> register_segments (Some seg) segs d
      | Some p \<Rightarrow>
          (let start = line p;
               end = (if col seg > 0 then line seg + 1 else line seg)
           in register_segments (Some seg) segs
                (fold (\<lambda>l. dict_append l p) (py_range start end) d)))"

text \<open>Line 26: \<^verbatim>\<open>sort_by_entry = lambda x : (x.isRegionEntry, x.count)\<close>.\<close>

definition sort_by_entry :: "Segment \<Rightarrow> bool \<times> int" where
  "sort_by_entry x = (isRegionEntry x, count x)"

text \<open>
  Lines 27 to 32: the loop over \<^verbatim>\<open>self.segmentsForLine.items()\<close>, with
  \<^verbatim>\<open>self.lineCounts\<close> and \<^verbatim>\<open>self.maxCount\<close> as the state. Indexing an empty
  \<^verbatim>\<open>prioritized\<close> would raise.
\<close>

fun resolve_lines :: "Segment list dict \<Rightarrow> int dict \<times> int \<Rightarrow> error + int dict \<times> int" where
  "resolve_lines [] st = Inr st"
| "resolve_lines ((l, segs) # items) (lc, mx) =
     (case sorted_reverse sort_by_entry segs of
        [] \<Rightarrow> Inl IndexError
      | best # _ \<Rightarrow> resolve_lines items (dict_set l (count best) lc, max mx (count best)))"

definition FileMapping_init :: "string \<Rightarrow> Segment list \<Rightarrow> error + FileMapping" where
  "FileMapping_init nm segs =
     (let ss = sort_key position segs;
          sfl = register_segments None ss []
      in case resolve_lines sfl ([], 0) of
           Inl e \<Rightarrow> Inl e
         | Inr (lc, mx) \<Rightarrow>
             Inr \<lparr>name = nm, segments = ss, segmentsForLine = sfl,
                  lineCounts = lc, maxCount = mx\<rparr>)"

section \<open>The queries\<close>

text \<open>
  \<^verbatim>\<open>countedLines\<close> is a generator over \<^verbatim>\<open>self.lineCounts.items()\<close>; draining it
  gives the pairs in the dictionary's order. The object is returned with the pairs, so
  that what a call leaves behind for the next one is part of the model.
\<close>

definition countedLines :: "FileMapping \<Rightarrow> (int \<times> int) list \<times> FileMapping" where
  "countedLines self = (fold (\<lambda>(l, cnt) out. out @ [(l, cnt)]) (lineCounts self) [], self)"

text \<open>\<^verbatim>\<open>self.lineCounts.get(line, None)\<close>: \<open>None\<close> is Python's \<^verbatim>\<open>None\<close>.\<close>

definition lineCount :: "FileMapping \<Rightarrow> int \<Rightarrow> int option" where
  "lineCount self l = map_of (lineCounts self) l"

section \<open>\<^verbatim>\<open>LoadCoverageCommand.draw_uncovered_segments\<close>\<close>

text \<open>
  \<^verbatim>\<open>view.text_point\<close> belongs to the editor and is a parameter. The function's value is
  the list \<^verbatim>\<open>regions\<close> that the source hands to \<^verbatim>\<open>view.add_regions\<close>.
\<close>

definition seg_pair_to_region :: "(int \<Rightarrow> int \<Rightarrow> 'p) \<Rightarrow> Segment \<times> Segment \<Rightarrow> 'p Region" where
  "seg_pair_to_region text_point pair =
     (case pair of (a, b) \<Rightarrow>
        Region (text_point (line a - 1) (col a - 1)) (text_point (line b - 1) (col b - 1)))"

definition pairwise_segments :: "FileMapping \<Rightarrow> (Segment \<times> Segment) list" where
  "pairwise_segments mapping = zip (segments mapping) (drop 1 (segments mapping))"

definition uncovered :: "FileMapping \<Rightarrow> (Segment \<times> Segment) list" where
  "uncovered mapping =
     filter (\<lambda>pair. count (fst pair) = 0 \<and> isRegionEntry (fst pair)) (pairwise_segments mapping)"

definition draw_uncovered_segments :: "(int \<Rightarrow> int \<Rightarrow> 'p) \<Rightarrow> FileMapping \<Rightarrow> 'p Region list" where
  "draw_uncovered_segments text_point mapping =
     map (seg_pair_to_region text_point) (uncovered mapping)"

text \<open>
  Lines 30 and 31 read as one expression: the count that a line's list of active
  segments resolves to.
\<close>

abbreviation resolved_count :: "Segment list \<Rightarrow> int" where
  "resolved_count segs \<equiv> count (hd (sorted_reverse sort_by_entry segs))"

text \<open>
  \<^verbatim>\<open>Segment(line, col, count, hasCount, isRegionEntry)\<close>, the namedtuple's
  constructor, for writing concrete inputs.
\<close>

abbreviation Seg :: "int \<Rightarrow> int \<Rightarrow> int \<Rightarrow> bool \<Rightarrow> bool \<Rightarrow> Segment" where
  "Seg l c n h e \<equiv> \<lparr>line = l, col = c, count = n, hasCount = h, isRegionEntry = e\<rparr>"

text \<open>
  Reading \<^verbatim>\<open>self.segmentsForLine[l]\<close>: the list stored for the line, empty for a line
  that is not a key.
\<close>

abbreviation active_on :: "Segment list dict \<Rightarrow> int \<Rightarrow> Segment list" where
  "active_on d l \<equiv> (case map_of d l of None \<Rightarrow> [] | Some vs \<Rightarrow> vs)"

section \<open>Dictionaries built by the constructor\<close>

lemma dict_append_keys: "fst ` set (dict_append k v d) = insert k (fst ` set d)"
  by (induction k v d rule: dict_append.induct) auto

lemma dict_append_distinct:
  "distinct (map fst d) \<Longrightarrow> distinct (map fst (dict_append k v d))"
  by (induction k v d rule: dict_append.induct) (auto simp: dict_append_keys)

lemma dict_append_nonempty: "[] \<notin> snd ` set d \<Longrightarrow> [] \<notin> snd ` set (dict_append k v d)"
  by (induction k v d rule: dict_append.induct) auto

lemma fold_dict_append_distinct:
  "distinct (map fst d) \<Longrightarrow> distinct (map fst (fold (\<lambda>l. dict_append l p) ls d))"
  by (induction ls arbitrary: d) (simp_all add: dict_append_distinct)

lemma fold_dict_append_nonempty:
  "[] \<notin> snd ` set d \<Longrightarrow> [] \<notin> snd ` set (fold (\<lambda>l. dict_append l p) ls d)"
  by (induction ls arbitrary: d) (simp_all add: dict_append_nonempty)

lemma register_segments_distinct:
  "distinct (map fst d) \<Longrightarrow> distinct (map fst (register_segments prev ss d))"
  by (induction ss arbitrary: prev d)
     (auto simp: Let_def fold_dict_append_distinct split: option.splits)

lemma register_segments_nonempty:
  "[] \<notin> snd ` set d \<Longrightarrow> [] \<notin> snd ` set (register_segments prev ss d)"
  by (induction ss arbitrary: prev d)
     (auto simp: Let_def fold_dict_append_nonempty split: option.splits)

lemma dict_set_fresh: "k \<notin> fst ` set d \<Longrightarrow> dict_set k v d = d @ [(k, v)]"
  by (induction k v d rule: dict_set.induct) auto

lemma sorted_reverse_Nil_iff: "sorted_reverse f xs = [] \<longleftrightarrow> xs = []"
proof -
  have "length (sorted_reverse f xs) = length xs"
    by (simp add: sorted_reverse_def)
  then show ?thesis by (metis length_0_conv)
qed

lemma resolve_lines_eq:
  assumes "[] \<notin> snd ` set d" and "distinct (map fst d)" and "fst ` set d \<inter> fst ` set lc = {}"
  shows "resolve_lines d (lc, mx) =
           Inr (lc @ map (\<lambda>(l, segs). (l, resolved_count segs)) d,
                fold (\<lambda>(l, segs) m. max m (resolved_count segs)) d mx)"
  using assms
proof (induction d arbitrary: lc mx)
  case Nil
  then show ?case by simp
next
  case (Cons item d)
  obtain l segs where item: "item = (l, segs)" by (cases item)
  from Cons.prems item have ne: "segs \<noteq> []" by auto
  then obtain best rest where sr: "sorted_reverse sort_by_entry segs = best # rest"
    by (cases "sorted_reverse sort_by_entry segs") (simp_all add: sorted_reverse_Nil_iff)
  from Cons.prems item have fresh: "l \<notin> fst ` set lc" by auto
  have disj: "fst ` set d \<inter> fst ` set (lc @ [(l, count best)]) = {}"
    using Cons.prems item by auto
  have "resolve_lines d (lc @ [(l, count best)], max mx (count best)) =
          Inr ((lc @ [(l, count best)]) @ map (\<lambda>(l, segs). (l, resolved_count segs)) d,
               fold (\<lambda>(l, segs) m. max m (resolved_count segs)) d (max mx (count best)))"
    using Cons.prems disj by (intro Cons.IH) auto
  then show ?case
    by (simp add: item sr dict_set_fresh [OF fresh])
qed

lemma FileMapping_init_eq:
  "FileMapping_init nm segs =
     Inr \<lparr>name = nm, segments = sort_key position segs,
          segmentsForLine = register_segments None (sort_key position segs) [],
          lineCounts = map (\<lambda>(l, segs). (l, resolved_count segs))
                         (register_segments None (sort_key position segs) []),
          maxCount = fold (\<lambda>(l, segs) m. max m (resolved_count segs))
                       (register_segments None (sort_key position segs) []) 0\<rparr>"
proof -
  let ?d = "register_segments None (sort_key position segs) []"
  have "[] \<notin> snd ` set ?d" by (rule register_segments_nonempty) simp
  moreover have "distinct (map fst ?d)" by (rule register_segments_distinct) simp
  ultimately have "resolve_lines ?d ([], 0) =
      Inr ([] @ map (\<lambda>(l, segs). (l, resolved_count segs)) ?d,
           fold (\<lambda>(l, segs) m. max m (resolved_count segs)) ?d 0)"
    by (intro resolve_lines_eq) auto
  then show ?thesis by (simp add: FileMapping_init_def Let_def)
qed

lemma fold_max_eq_Max:
  fixes h :: "'a \<Rightarrow> int"
  shows "fold (\<lambda>x m. max m (h x)) xs mx = Max (insert mx (h ` set xs))"
proof (induction xs arbitrary: mx)
  case Nil
  then show ?case by simp
next
  case (Cons x xs)
  have "Max (insert (max mx (h x)) (h ` set xs)) = Max (insert mx (insert (h x) (h ` set xs)))"
    by (cases "h ` set xs = {}") (simp_all add: max.assoc)
  with Cons.IH [of "max mx (h x)"] show ?case by simp
qed

lemma sorted_last_max:
  "sorted (map f ys) \<Longrightarrow> y \<in> set ys \<Longrightarrow> f y \<le> f (last ys)"
  by (induction ys) auto

lemma sorted_reverse_head:
  assumes "sorted_reverse f xs = best # rest"
  shows "best \<in> set xs" and "x \<in> set xs \<Longrightarrow> f x \<le> f best"
proof -
  let ?ys = "sort_key f (rev xs)"
  from assms have ne: "?ys \<noteq> []" by (auto simp: sorted_reverse_def)
  from assms have "hd (rev ?ys) = best" by (simp add: sorted_reverse_def)
  with ne have best: "best = last ?ys" by (simp add: hd_rev)
  from ne have "last ?ys \<in> set ?ys" by (rule last_in_set)
  with best show "best \<in> set xs" by simp
  assume "x \<in> set xs"
  then have "x \<in> set ?ys" by simp
  moreover have "sorted (map f ?ys)" by simp
  ultimately show "f x \<le> f best" unfolding best by (rule sorted_last_max [rotated])
qed

lemma dict_append_values:
  "\<Union> (set ` snd ` set (dict_append k v d)) = insert v (\<Union> (set ` snd ` set d))"
  by (induction k v d rule: dict_append.induct) auto

lemma fold_dict_append_values:
  "\<Union> (set ` snd ` set (fold (\<lambda>l. dict_append l p) ls d)) \<subseteq> insert p (\<Union> (set ` snd ` set d))"
proof (induction ls arbitrary: d)
  case Nil
  then show ?case by auto
next
  case (Cons l ls)
  have "\<Union> (set ` snd ` set (fold (\<lambda>l. dict_append l p) ls (dict_append l p d)))
          \<subseteq> insert p (\<Union> (set ` snd ` set (dict_append l p d)))"
    by (rule Cons.IH)
  also have "\<dots> = insert p (\<Union> (set ` snd ` set d))"
    by (simp only: dict_append_values insert_absorb2)
  finally show ?case by simp
qed

lemma register_segments_values:
  "\<Union> (set ` snd ` set (register_segments prev ss d))
     \<subseteq> set (butlast (case prev of None \<Rightarrow> ss | Some p \<Rightarrow> p # ss)) \<union> \<Union> (set ` snd ` set d)"
proof (induction ss arbitrary: prev d)
  case Nil
  then show ?case by (simp split: option.splits)
next
  case (Cons seg ss)
  show ?case
  proof (cases prev)
    case None
    have "\<Union> (set ` snd ` set (register_segments (Some seg) ss d))
            \<subseteq> set (butlast (seg # ss)) \<union> \<Union> (set ` snd ` set d)"
      using Cons.IH [of "Some seg" d] by simp
    with None show ?thesis by simp
  next
    case (Some p)
    let ?d = "fold (\<lambda>l. dict_append l p)
                (py_range (line p) (if col seg > 0 then line seg + 1 else line seg)) d"
    have "\<Union> (set ` snd ` set (register_segments (Some seg) ss ?d))
            \<subseteq> set (butlast (seg # ss)) \<union> \<Union> (set ` snd ` set ?d)"
      using Cons.IH [of "Some seg" ?d] by simp
    also have "\<dots> \<subseteq> set (butlast (seg # ss)) \<union> insert p (\<Union> (set ` snd ` set d))"
      by (rule Un_mono [OF subset_refl fold_dict_append_values])
    also have "\<dots> = set (butlast (p # seg # ss)) \<union> \<Union> (set ` snd ` set d)"
      by simp
    finally have "\<Union> (set ` snd ` set (register_segments (Some seg) ss ?d))
            \<subseteq> set (butlast (p # seg # ss)) \<union> \<Union> (set ` snd ` set d)" .
    moreover have "register_segments prev (seg # ss) d = register_segments (Some seg) ss ?d"
      using Some by (simp add: Let_def)
    ultimately show ?thesis using Some by (simp only: option.case)
  qed
qed

lemma fold_snoc_map: "fold (\<lambda>x out. out @ [g x]) xs acc = acc @ map g xs"
  by (induction xs arbitrary: acc) simp_all

section \<open>What the constructor returns\<close>

lemma map_of_resolved:
  assumes "distinct (map fst d)" and "(k, v) \<in> set d"
  shows "map_of (map (\<lambda>(l, segs). (l, g segs)) d) k = Some (g v)"
proof -
  from assms have "map_of d k = Some v" by (rule map_of_is_SomeI)
  then show ?thesis by (simp add: map_of_map)
qed

lemma map_of_resolved_None:
  "k \<notin> fst ` set d \<Longrightarrow> map_of (map (\<lambda>(l, segs). (l, g segs)) d) k = None"
  by (simp add: map_of_map map_of_eq_None_iff)

lemma FileMapping_init_fields:
  assumes "FileMapping_init nm segs = Inr m"
  shows "segments m = sort_key position segs"
    and "segmentsForLine m = register_segments None (segments m) []"
    and "lineCounts m = map (\<lambda>(l, segs). (l, resolved_count segs)) (segmentsForLine m)"
    and "maxCount m = fold (\<lambda>(l, segs) m. max m (resolved_count segs)) (segmentsForLine m) 0"
    and "distinct (map fst (segmentsForLine m))"
    and "[] \<notin> snd ` set (segmentsForLine m)"
proof -
  from assms have m: "m = \<lparr>name = nm, segments = sort_key position segs,
          segmentsForLine = register_segments None (sort_key position segs) [],
          lineCounts = map (\<lambda>(l, segs). (l, resolved_count segs))
                         (register_segments None (sort_key position segs) []),
          maxCount = fold (\<lambda>(l, segs) m. max m (resolved_count segs))
                       (register_segments None (sort_key position segs) []) 0\<rparr>"
    by (simp add: FileMapping_init_eq)
  show "segments m = sort_key position segs" by (subst m) simp
  show "segmentsForLine m = register_segments None (segments m) []" by (subst m, subst m) simp
  show "lineCounts m = map (\<lambda>(l, segs). (l, resolved_count segs)) (segmentsForLine m)"
    by (subst m, subst m) simp
  show "maxCount m = fold (\<lambda>(l, segs) m. max m (resolved_count segs)) (segmentsForLine m) 0"
    by (subst m, subst m) simp
  have "distinct (map fst (register_segments None (sort_key position segs) []))"
    by (rule register_segments_distinct) simp
  then show "distinct (map fst (segmentsForLine m))" by (subst m) simp
  have "[] \<notin> snd ` set (register_segments None (sort_key position segs) [])"
    by (rule register_segments_nonempty) simp
  then show "[] \<notin> snd ` set (segmentsForLine m)" by (subst m) simp
qed

lemma sorted_reverse_descending:
  "sorted_wrt (\<lambda>x y. f y \<le> f x) (sorted_reverse f xs)"
proof -
  have "sorted (map f (sort_key f (rev xs)))" by simp
  then have "sorted_wrt (\<lambda>x y. f x \<le> f y) (sort_key f (rev xs))"
    by (simp add: sorted_map)
  then show ?thesis
    by (simp add: sorted_reverse_def sorted_wrt_rev)
qed

lemma sorted_reverse_mset: "mset (sorted_reverse f xs) = mset xs"
  by (simp add: sorted_reverse_def)

lemma resolved_count_nonneg:
  assumes "FileMapping_init nm segs = Inr m" and "(l, active) \<in> set (segmentsForLine m)"
    and "\<forall>s\<in>set segs. 0 \<le> count s"
  shows "0 \<le> resolved_count active"
proof -
  note f = FileMapping_init_fields [OF assms(1)]
  from f(6) assms(2) have "active \<noteq> []" by force
  then obtain best rest where sr: "sorted_reverse sort_by_entry active = best # rest"
    by (cases "sorted_reverse sort_by_entry active") (simp_all add: sorted_reverse_Nil_iff)
  have "best \<in> set active" by (rule sorted_reverse_head(1) [OF sr])
  moreover have "set active \<subseteq> \<Union> (set ` snd ` set (segmentsForLine m))"
    using assms(2) by force
  moreover have "\<Union> (set ` snd ` set (segmentsForLine m)) \<subseteq> set (butlast (segments m))"
    using register_segments_values [of None "segments m" "[]"] f(2) by simp
  moreover have "set (butlast (segments m)) \<subseteq> set segs"
    using in_set_butlastD [of _ "segments m"] f(1) by auto
  ultimately have "best \<in> set segs" by blast
  with assms(3) show ?thesis by (simp add: sr)
qed

section \<open>The lines a segment is registered for\<close>

lemma active_on_dict_append:
  "active_on (dict_append k v d) l = (if l = k then active_on d l @ [v] else active_on d l)"
  by (induction k v d rule: dict_append.induct) auto

lemma active_on_fold_dict_append:
  "distinct ls \<Longrightarrow>
   active_on (fold (\<lambda>k. dict_append k p) ls d) l =
     active_on d l @ (if l \<in> set ls then [p] else [])"
proof (induction ls arbitrary: d)
  case Nil
  then show ?case by simp
next
  case (Cons k ls)
  from Cons.prems have "distinct ls" and "k \<notin> set ls" by simp_all
  with Cons.IH [of "dict_append k p d"] show ?case
    by (auto simp: active_on_dict_append)
qed

lemma active_on_py_range:
  "active_on (fold (\<lambda>k. dict_append k p) (py_range a b) d) l =
     active_on d l @ (if a \<le> l \<and> l < b then [p] else [])"
proof -
  have "distinct (py_range a b)" by (simp add: py_range_def)
  moreover have "l \<in> set (py_range a b) \<longleftrightarrow> a \<le> l \<and> l < b"
    by (auto simp: py_range_def)
  ultimately show ?thesis by (simp add: active_on_fold_dict_append)
qed

lemma active_on_register_segments_Some:
  "active_on (register_segments (Some p) ss d) l =
     active_on d l @
     map fst (filter (\<lambda>(prev, cur). line prev \<le> l
                        \<and> l < (if col cur > 0 then line cur + 1 else line cur))
                (zip (p # ss) ss))"
proof (induction ss arbitrary: p d)
  case Nil
  then show ?case by simp
next
  case (Cons seg ss)
  show ?case
    by (simp add: Let_def Cons.IH active_on_py_range)
qed

lemma active_on_register_segments:
  "active_on (register_segments None ss []) l =
     map fst (filter (\<lambda>(prev, cur). line prev \<le> l
                        \<and> l < (if col cur > 0 then line cur + 1 else line cur))
                (zip ss (drop 1 ss)))"
proof (cases ss)
  case Nil
  then show ?thesis by simp
next
  case (Cons s rest)
  then show ?thesis
    using active_on_register_segments_Some [of s rest "[]" l] by simp
qed

text \<open>
  What lines 16 to 25 register, for every input: the segments active on line \<open>l\<close> are,
  in order, the first components of the consecutive pairs (prev, cur) of the sorted
  segments with \<open>prev.line \<le> l < end\<close>, where \<open>end\<close> is \<open>cur.line + 1\<close> if
  \<open>cur.col > 0\<close> and \<open>cur.line\<close> otherwise.
\<close>

lemma registered_lines:
  assumes "FileMapping_init nm segs = Inr m"
  shows "active_on (segmentsForLine m) l =
           map fst (filter (\<lambda>(prev, cur). line prev \<le> l
                              \<and> l < (if col cur > 0 then line cur + 1 else line cur))
                      (zip (segments m) (drop 1 (segments m))))"
  using active_on_register_segments [of "segments m" l]
  by (simp only: FileMapping_init_fields(2) [OF assms, symmetric])

section \<open>Running the model on concrete inputs\<close>

lemmas run_simps =
  FileMapping_init_def position_def py_range_def sorted_reverse_def sort_by_entry_def
  upto.simps Let_def

section \<open>The claims\<close>

text \<open>
  Claim C1: for every consecutive pair (prev, cur) of the sorted segments, prev is
  registered for exactly the lines from \<open>prev.line\<close> up to, but not including, \<open>end\<close>,
  where \<open>end\<close> is \<open>cur.line + 1\<close> if \<open>cur.col > 1\<close> and \<open>cur.line\<close> if \<open>cur.col = 1\<close>.
  The source tests \<open>seg.col > 0\<close> (see \<open>registered_lines\<close>), which every 1-based
  column passes: at a successor in column 1 the line of the successor is registered for
  prev too. Here prev is at (1, 1) and cur at (2, 1): the range of the claim,
  \<open>range(1, 2)\<close>, holds line 1 only, and the code registers prev on lines 1 and 2.
\<close>

theorem column_one_successor_line_is_registered:
  "FileMapping_init ''f'' [Seg 1 1 5 True True, Seg 2 1 3 True False] =
     Inr \<lparr>name = ''f'',
          segments = [Seg 1 1 5 True True, Seg 2 1 3 True False],
          segmentsForLine = [(1, [Seg 1 1 5 True True]), (2, [Seg 1 1 5 True True])],
          lineCounts = [(1, 5), (2, 5)],
          maxCount = 5\<rparr>
   \<and> active_on [(1, [Seg 1 1 5 True True]), (2, [Seg 1 1 5 True True])] 2 =
       [Seg 1 1 5 True True]
   \<and> py_range (line (Seg 1 1 5 True True)) (line (Seg 2 1 3 True False)) = [1]"
  by (simp add: run_simps)

text \<open>
  Claim C2: for the input \<open>[(1,1,0,true,true), (3,1,7,true,false)]\<close> the line counts are
  \<open>{1:0, 2:0}\<close>, the maximum count is 0, and exactly one uncovered region, from (line 1,
  col 1) to (line 3, col 1), is emitted. The code returns the region and the maximum as
  claimed, but its line counts hold line 3 as well, by the same column test as in C1.
\<close>

theorem two_segment_example:
  "FileMapping_init nm [Seg 1 1 0 True True, Seg 3 1 7 True False] =
     Inr \<lparr>name = nm,
          segments = [Seg 1 1 0 True True, Seg 3 1 7 True False],
          segmentsForLine = [(1, [Seg 1 1 0 True True]), (2, [Seg 1 1 0 True True]),
                             (3, [Seg 1 1 0 True True])],
          lineCounts = [(1, 0), (2, 0), (3, 0)],
          maxCount = 0\<rparr>
   \<and> draw_uncovered_segments text_point
         \<lparr>name = nm,
          segments = [Seg 1 1 0 True True, Seg 3 1 7 True False],
          segmentsForLine = [(1, [Seg 1 1 0 True True]), (2, [Seg 1 1 0 True True]),
                             (3, [Seg 1 1 0 True True])],
          lineCounts = [(1, 0), (2, 0), (3, 0)],
          maxCount = 0\<rparr>
       = [Region (text_point 0 0) (text_point 2 0)]"
  by (simp add: run_simps draw_uncovered_segments_def uncovered_def pairwise_segments_def
        seg_pair_to_region_def)

text \<open>
  Claim C7: construction never raises. The empty input and every one-segment input give
  empty line counts and a maximum count of 0; and in general only segments other than
  the last one of the sorted sequence are ever registered as active on a line.
\<close>

theorem construction_total:
  "(\<exists>m. FileMapping_init nm segs = Inr m)
   \<and> FileMapping_init nm [] =
       Inr \<lparr>name = nm, segments = [], segmentsForLine = [], lineCounts = [], maxCount = 0\<rparr>
   \<and> FileMapping_init nm [s] =
       Inr \<lparr>name = nm, segments = [s], segmentsForLine = [], lineCounts = [], maxCount = 0\<rparr>
   \<and> (\<forall>m l active. FileMapping_init nm segs = Inr m \<and> (l, active) \<in> set (segmentsForLine m)
          \<longrightarrow> set active \<subseteq> set (butlast (segments m)))"
proof -
  have total: "\<exists>m. FileMapping_init nm segs = Inr m"
    by (simp add: FileMapping_init_eq)
  have empty: "FileMapping_init nm [] =
       Inr \<lparr>name = nm, segments = [], segmentsForLine = [], lineCounts = [], maxCount = 0\<rparr>"
    by (simp add: FileMapping_init_def)
  have single: "FileMapping_init nm [s] =
       Inr \<lparr>name = nm, segments = [s], segmentsForLine = [], lineCounts = [], maxCount = 0\<rparr>"
    by (simp add: FileMapping_init_def)
  have last: "set active \<subseteq> set (butlast (segments m))"
    if "FileMapping_init nm segs = Inr m" and "(l, active) \<in> set (segmentsForLine m)"
    for m l active
  proof -
    let ?ss = "sort_key position segs"
    from that(1) have m: "segments m = ?ss" "segmentsForLine m = register_segments None ?ss []"
      by (auto simp: FileMapping_init_eq)
    have "\<Union> (set ` snd ` set (register_segments None ?ss [])) \<subseteq> set (butlast ?ss)"
      using register_segments_values [of None ?ss "[]"] by simp
    moreover have "set active \<subseteq> \<Union> (set ` snd ` set (segmentsForLine m))"
      using that(2) by force
    ultimately show ?thesis using m by simp
  qed
  from total empty single last show ?thesis by blast
qed

theorem construction_total_witness:
  "FileMapping_init ''f'' [Seg 1 1 5 True True, Seg 2 4 3 True False] =
     Inr \<lparr>name = ''f'',
          segments = [Seg 1 1 5 True True, Seg 2 4 3 True False],
          segmentsForLine = [(1, [Seg 1 1 5 True True]), (2, [Seg 1 1 5 True True])],
          lineCounts = [(1, 5), (2, 5)],
          maxCount = 5\<rparr>
   \<and> (2, [Seg 1 1 5 True True]) \<in> set [(1, [Seg 1 1 5 True True]), (2, [Seg 1 1 5 True True])]
   \<and> set [Seg 1 1 5 True True] \<subseteq> set (butlast [Seg 1 1 5 True True, Seg 2 4 3 True False])"
  using construction_total [of "''f''" "[Seg 1 1 5 True True, Seg 2 4 3 True False]"]
  by (simp add: run_simps)

text \<open>
  Claim C8: calling \<open>countedLines\<close> a second time, on the object as the first call left
  it, yields the same pairs; the call leaves the object unchanged, and the pairs are the
  finitely many entries of the stored line counts.
\<close>

theorem countedLines_restartable:
  "fst (countedLines (snd (countedLines m))) = fst (countedLines m)
   \<and> set (fst (countedLines (snd (countedLines m)))) = set (fst (countedLines m))
   \<and> snd (countedLines m) = m
   \<and> fst (countedLines m) = lineCounts m
   \<and> finite (set (fst (countedLines m)))"
proof -
  have "fold (\<lambda>(l, cnt) out. out @ [(l, cnt)]) xs [] = xs" for xs :: "(int \<times> int) list"
    using fold_snoc_map [of "\<lambda>x. x" xs "[]"] by (simp add: case_prod_unfold)
  then show ?thesis by (simp add: countedLines_def)
qed

text \<open>
  Claim C4: on every line with an active segment, the resolved count is the count of the
  segment that comes first when the line's active segments are put in descending order
  of the pair (isRegionEntry, count): a region entry outranks a segment that is none,
  and among segments of equal entry status the higher count wins. In particular, a line
  whose active segments are one with isRegionEntry false and count 9 and one with
  isRegionEntry true and count 2 resolves to 2.
\<close>

theorem resolved_count_is_top_ranked:
  assumes "FileMapping_init nm segs = Inr m" and "(l, active) \<in> set (segmentsForLine m)"
  shows "\<exists>best rest.
           sorted_reverse sort_by_entry active = best # rest
         \<and> mset (best # rest) = mset active
         \<and> sorted_wrt (\<lambda>x y. sort_by_entry y \<le> sort_by_entry x) (best # rest)
         \<and> (\<forall>t \<in> set active.
               (isRegionEntry t \<longrightarrow> isRegionEntry best)
             \<and> (isRegionEntry t = isRegionEntry best \<longrightarrow> count t \<le> count best))
         \<and> lineCount m l = Some (count best)
         \<and> (\<forall>a b. set active = {a, b} \<and> \<not> isRegionEntry a \<and> count a = 9
                    \<and> isRegionEntry b \<and> count b = 2 \<longrightarrow> lineCount m l = Some 2)"
proof -
  note f = FileMapping_init_fields [OF assms(1)]
  from f(6) assms(2) have "active \<noteq> []" by force
  then obtain best rest where sr: "sorted_reverse sort_by_entry active = best # rest"
    by (cases "sorted_reverse sort_by_entry active") (simp_all add: sorted_reverse_Nil_iff)
  have ms: "mset (best # rest) = mset active"
    using sorted_reverse_mset [of sort_by_entry active] by (simp only: sr)
  have desc: "sorted_wrt (\<lambda>x y. sort_by_entry y \<le> sort_by_entry x) (best # rest)"
    using sorted_reverse_descending [of sort_by_entry active] by (simp only: sr)
  have mem: "best \<in> set active" by (rule sorted_reverse_head(1) [OF sr])
  have top: "sort_by_entry t \<le> sort_by_entry best" if "t \<in> set active" for t
    using that by (rule sorted_reverse_head(2) [OF sr])
  have rank: "(isRegionEntry t \<longrightarrow> isRegionEntry best)
             \<and> (isRegionEntry t = isRegionEntry best \<longrightarrow> count t \<le> count best)"
    if "t \<in> set active" for t
    using top [OF that] by (auto simp: sort_by_entry_def)
  have lc: "lineCount m l = Some (count best)"
    using map_of_resolved [OF f(5) assms(2), of resolved_count]
    by (simp add: lineCount_def f(3) sr)
  have ex: "lineCount m l = Some 2"
    if "set active = {a, b}" "\<not> isRegionEntry a" "count a = 9" "isRegionEntry b" "count b = 2"
    for a b
  proof -
    from that(1) have "b \<in> set active" by simp
    from rank [OF this] that(4) have "isRegionEntry best" by simp
    with mem that(1,2) have "best = b" by auto
    with lc that(5) show ?thesis by simp
  qed
  from sr ms desc rank lc ex show ?thesis by blast
qed

theorem resolved_count_is_top_ranked_witness:
  "FileMapping_init ''f'' [Seg 1 1 9 True False, Seg 1 5 2 True True, Seg 2 1 0 True False] =
     Inr \<lparr>name = ''f'',
          segments = [Seg 1 1 9 True False, Seg 1 5 2 True True, Seg 2 1 0 True False],
          segmentsForLine = [(1, [Seg 1 1 9 True False, Seg 1 5 2 True True]),
                             (2, [Seg 1 5 2 True True])],
          lineCounts = [(1, 2), (2, 2)],
          maxCount = 2\<rparr>
   \<and> sorted_reverse sort_by_entry [Seg 1 1 9 True False, Seg 1 5 2 True True] =
       [Seg 1 5 2 True True, Seg 1 1 9 True False]
   \<and> lineCount \<lparr>name = ''f'',
          segments = [Seg 1 1 9 True False, Seg 1 5 2 True True, Seg 2 1 0 True False],
          segmentsForLine = [(1, [Seg 1 1 9 True False, Seg 1 5 2 True True]),
                             (2, [Seg 1 5 2 True True])],
          lineCounts = [(1, 2), (2, 2)],
          maxCount = 2\<rparr> 1 = Some 2"
proof -
  let ?m = "\<lparr>name = ''f'',
          segments = [Seg 1 1 9 True False, Seg 1 5 2 True True, Seg 2 1 0 True False],
          segmentsForLine = [(1, [Seg 1 1 9 True False, Seg 1 5 2 True True]),
                             (2, [Seg 1 5 2 True True])],
          lineCounts = [(1, 2), (2, 2)],
          maxCount = 2\<rparr>"
  have h1: "FileMapping_init ''f''
              [Seg 1 1 9 True False, Seg 1 5 2 True True, Seg 2 1 0 True False] = Inr ?m"
    by (simp add: run_simps)
  have h2: "(1, [Seg 1 1 9 True False, Seg 1 5 2 True True]) \<in> set (segmentsForLine ?m)"
    by simp
  have h3: "sorted_reverse sort_by_entry [Seg 1 1 9 True False, Seg 1 5 2 True True] =
       [Seg 1 5 2 True True, Seg 1 1 9 True False]"
    by (simp add: run_simps)
  from resolved_count_is_top_ranked [OF h1 h2] have "lineCount ?m 1 = Some 2"
    by (simp add: h3)
  with h1 h3 show ?thesis by simp
qed

text \<open>
  Claim C5 as stated, for every input, fails: \<open>maxCount\<close> starts at 0 and the
  constructor does not reject a negative count, so when every resolved count is negative
  \<open>maxCount\<close> stays 0, above the maximum value of \<open>lineCounts\<close>.
\<close>

theorem maxCount_above_negative_line_counts:
  "FileMapping_init ''f'' [Seg 1 1 (- 3) True True, Seg 2 1 (- 1) True True] =
     Inr \<lparr>name = ''f'',
          segments = [Seg 1 1 (- 3) True True, Seg 2 1 (- 1) True True],
          segmentsForLine = [(1, [Seg 1 1 (- 3) True True]), (2, [Seg 1 1 (- 3) True True])],
          lineCounts = [(1, - 3), (2, - 3)],
          maxCount = 0\<rparr>
   \<and> Max (snd ` set [(1 :: int, - 3 :: int), (2, - 3)]) = - 3
   \<and> maxCount (projr (FileMapping_init ''f''
         [Seg 1 1 (- 3) True True, Seg 2 1 (- 1) True True]))
       \<noteq> Max (snd ` set (lineCounts (projr (FileMapping_init ''f''
         [Seg 1 1 (- 3) True True, Seg 2 1 (- 1) True True]))))"
  by (simp add: run_simps)

text \<open>
  Claim C5, amended: after construction, \<open>maxCount\<close> is the maximum of 0 and the values
  of \<open>lineCounts\<close>; when the counts of the input are non-negative, it is the maximum
  value of \<open>lineCounts\<close>, and 0 when \<open>lineCounts\<close> is empty. For every input, the
  keys of \<open>lineCounts\<close> are the keys of \<open>segmentsForLine\<close>, each once.
\<close>

theorem maxCount_is_maximum_and_keys_agree:
  assumes "FileMapping_init nm segs = Inr m"
  shows "maxCount m = Max (insert 0 (snd ` set (lineCounts m)))
       \<and> ((\<forall>s\<in>set segs. 0 \<le> count s) \<longrightarrow>
            maxCount m = (if lineCounts m = [] then 0 else Max (snd ` set (lineCounts m))))
       \<and> map fst (lineCounts m) = map fst (segmentsForLine m)
       \<and> distinct (map fst (lineCounts m))"
proof -
  note f = FileMapping_init_fields [OF assms]
  let ?h = "\<lambda>item :: int \<times> Segment list. resolved_count (snd item)"
  have vals: "snd ` set (lineCounts m) = ?h ` set (segmentsForLine m)"
    by (subst f(3)) force
  have "maxCount m = fold (\<lambda>item mx. max mx (?h item)) (segmentsForLine m) 0"
    by (subst f(4)) (simp add: case_prod_unfold)
  also have "\<dots> = Max (insert 0 (?h ` set (segmentsForLine m)))"
    by (rule fold_max_eq_Max)
  finally have mx: "maxCount m = Max (insert 0 (snd ` set (lineCounts m)))"
    by (simp only: vals)
  have keys: "map fst (lineCounts m) = map fst (segmentsForLine m)"
    by (subst f(3)) (simp add: case_prod_unfold comp_def)
  have dist: "distinct (map fst (lineCounts m))"
    using f(5) by (simp only: keys)
  have nonneg: "maxCount m = (if lineCounts m = [] then 0 else Max (snd ` set (lineCounts m)))"
    if all: "\<forall>s\<in>set segs. 0 \<le> count s"
  proof (cases "lineCounts m = []")
    case True
    with mx show ?thesis by simp
  next
    case False
    let ?S = "snd ` set (lineCounts m)"
    from False have ne: "?S \<noteq> {}" by simp
    have fin: "finite ?S" by simp
    have "0 \<le> c" if "c \<in> ?S" for c
    proof -
      from that vals obtain l active where "(l, active) \<in> set (segmentsForLine m)"
        and "c = resolved_count active" by auto
      with resolved_count_nonneg [OF assms _ all] show ?thesis by simp
    qed
    moreover have "Max ?S \<in> ?S" using fin ne by (rule Max_in)
    ultimately have "0 \<le> Max ?S" by blast
    moreover have "Max (insert 0 ?S) = max 0 (Max ?S)" using fin ne by (rule Max_insert)
    ultimately show ?thesis using mx False by simp
  qed
  from mx nonneg keys dist show ?thesis by blast
qed

theorem maxCount_is_maximum_and_keys_agree_witness:
  "FileMapping_init ''f'' [Seg 4 2 3 True True, Seg 1 1 8 True True, Seg 2 3 0 True False] =
     Inr \<lparr>name = ''f'',
          segments = [Seg 1 1 8 True True, Seg 2 3 0 True False, Seg 4 2 3 True True],
          segmentsForLine = [(1, [Seg 1 1 8 True True]),
                             (2, [Seg 1 1 8 True True, Seg 2 3 0 True False]),
                             (3, [Seg 2 3 0 True False]), (4, [Seg 2 3 0 True False])],
          lineCounts = [(1, 8), (2, 8), (3, 0), (4, 0)],
          maxCount = 8\<rparr>
   \<and> (8::int) = Max (snd ` set [(1::int, 8::int), (2, 8), (3, 0), (4, 0)])"
proof -
  let ?segs = "[Seg 4 2 3 True True, Seg 1 1 8 True True, Seg 2 3 0 True False]"
  let ?m = "\<lparr>name = ''f'',
          segments = [Seg 1 1 8 True True, Seg 2 3 0 True False, Seg 4 2 3 True True],
          segmentsForLine = [(1, [Seg 1 1 8 True True]),
                             (2, [Seg 1 1 8 True True, Seg 2 3 0 True False]),
                             (3, [Seg 2 3 0 True False]), (4, [Seg 2 3 0 True False])],
          lineCounts = [(1, 8), (2, 8), (3, 0), (4, 0)],
          maxCount = 8\<rparr>"
  have h1: "FileMapping_init ''f'' ?segs = Inr ?m"
    by (simp add: run_simps)
  have h2: "\<forall>s\<in>set ?segs. 0 \<le> count s" by simp
  from maxCount_is_maximum_and_keys_agree [OF h1] h2
  have "maxCount ?m = (if lineCounts ?m = [] then 0 else Max (snd ` set (lineCounts ?m)))"
    by blast
  then have "(8::int) = Max (snd ` set [(1::int, 8::int), (2, 8), (3, 0), (4, 0)])" by simp
  with h1 show ?thesis by simp
qed

text \<open>
  Claim C9: \<open>lineCount\<close> returns the resolved count of a line that has active
  segments, and \<open>None\<close> for any other line; \<open>None\<close> is a value, not an exception,
  and it differs from a count of 0.
\<close>

theorem lineCount_resolved_or_no_data:
  assumes "FileMapping_init nm segs = Inr m"
  shows "(\<forall>active. (l, active) \<in> set (segmentsForLine m) \<longrightarrow>
            active \<noteq> [] \<and> lineCount m l = Some (resolved_count active))
       \<and> (l \<notin> fst ` set (segmentsForLine m) \<longrightarrow>
            lineCount m l = None \<and> lineCount m l \<noteq> Some 0)"
proof -
  note f = FileMapping_init_fields [OF assms]
  have a: "active \<noteq> [] \<and> lineCount m l = Some (resolved_count active)"
    if "(l, active) \<in> set (segmentsForLine m)" for active
  proof
    from f(6) that show "active \<noteq> []" by force
    show "lineCount m l = Some (resolved_count active)"
      using map_of_resolved [OF f(5) that, of resolved_count]
      by (simp add: lineCount_def f(3))
  qed
  have b: "lineCount m l = None \<and> lineCount m l \<noteq> Some 0"
    if "l \<notin> fst ` set (segmentsForLine m)"
    using map_of_resolved_None [OF that, of resolved_count]
    by (simp add: lineCount_def f(3))
  from a b show ?thesis by blast
qed

theorem lineCount_resolved_or_no_data_witness:
  "FileMapping_init ''f'' [Seg 1 1 0 True True, Seg 3 4 7 True False] =
     Inr \<lparr>name = ''f'',
          segments = [Seg 1 1 0 True True, Seg 3 4 7 True False],
          segmentsForLine = [(1, [Seg 1 1 0 True True]), (2, [Seg 1 1 0 True True]),
                             (3, [Seg 1 1 0 True True])],
          lineCounts = [(1, 0), (2, 0), (3, 0)],
          maxCount = 0\<rparr>
   \<and> lineCount \<lparr>name = ''f'',
          segments = [Seg 1 1 0 True True, Seg 3 4 7 True False],
          segmentsForLine = [(1, [Seg 1 1 0 True True]), (2, [Seg 1 1 0 True True]),
                             (3, [Seg 1 1 0 True True])],
          lineCounts = [(1, 0), (2, 0), (3, 0)],
          maxCount = 0\<rparr> 2 = Some 0
   \<and> lineCount \<lparr>name = ''f'',
          segments = [Seg 1 1 0 True True, Seg 3 4 7 True False],
          segmentsForLine = [(1, [Seg 1 1 0 True True]), (2, [Seg 1 1 0 True True]),
                             (3, [Seg 1 1 0 True True])],
          lineCounts = [(1, 0), (2, 0), (3, 0)],
          maxCount = 0\<rparr> 4 = None"
proof -
  let ?m = "\<lparr>name = ''f'',
          segments = [Seg 1 1 0 True True, Seg 3 4 7 True False],
          segmentsForLine = [(1, [Seg 1 1 0 True True]), (2, [Seg 1 1 0 True True]),
                             (3, [Seg 1 1 0 True True])],
          lineCounts = [(1, 0), (2, 0), (3, 0)],
          maxCount = 0\<rparr>"
  have h1: "FileMapping_init ''f'' [Seg 1 1 0 True True, Seg 3 4 7 True False] = Inr ?m"
    by (simp add: run_simps)
  have h2: "(2, [Seg 1 1 0 True True]) \<in> set (segmentsForLine ?m)" by simp
  have h3: "4 \<notin> fst ` set (segmentsForLine ?m)" by simp
  from lineCount_resolved_or_no_data [OF h1, of 2] h2
  have "lineCount ?m 2 = Some (resolved_count [Seg 1 1 0 True True])" by blast
  then have r2: "lineCount ?m 2 = Some 0" by (simp add: run_simps)
  from lineCount_resolved_or_no_data [OF h1, of 4] h3
  have r4: "lineCount ?m 4 = None" by blast
  from h1 r2 r4 show ?thesis by simp
qed

subsection \<open>Uncovered regions\<close>

lemma zip_drop1_nth:
  "zip xs (drop 1 xs) = map (\<lambda>i. (xs ! i, xs ! Suc i)) [0..<length xs - 1]"
  by (rule nth_equalityI) auto

lemma sorted_starts_of_filtered_pairs:
  assumes "sorted (map f xs)"
  shows "sorted (map (\<lambda>(a, b). f a) (filter P (zip xs (drop 1 xs))))"
proof -
  have "map (\<lambda>(a, b). f a) (zip xs (drop 1 xs)) = map f (map fst (zip xs (drop 1 xs)))"
    by (simp add: case_prod_unfold comp_def)
  also have "\<dots> = take (min (length xs) (length (drop 1 xs))) (map f xs)"
    by (simp only: map_fst_zip_take take_map)
  finally have "sorted (map (\<lambda>(a, b). f a) (zip xs (drop 1 xs)))"
    using assms by (simp only: sorted_wrt_take)
  then show ?thesis by (rule sorted_filter)
qed

lemma sorted_ends_of_filtered_pairs:
  assumes "sorted (map f xs)"
  shows "sorted (map (\<lambda>(a, b). f b) (filter P (zip xs (drop 1 xs))))"
proof -
  have "map (\<lambda>(a, b). f b) (zip xs (drop 1 xs)) = map f (map snd (zip xs (drop 1 xs)))"
    by (simp add: case_prod_unfold comp_def)
  also have "\<dots> = take (min (length xs) (length (drop 1 xs))) (drop 1 (map f xs))"
    by (simp only: map_snd_zip_take take_map drop_map)
  finally have "sorted (map (\<lambda>(a, b). f b) (zip xs (drop 1 xs)))"
    using assms by (simp only: sorted_wrt_take sorted_wrt_drop)
  then show ?thesis by (rule sorted_filter)
qed

lemma consecutive_pair_ordered:
  assumes "sorted (map f xs)" and "(a, b) \<in> set (zip xs (drop 1 xs))"
  shows "f a \<le> f b"
proof -
  from assms(2) have "(a, b) \<in> set (map (\<lambda>i. (xs ! i, xs ! Suc i)) [0..<length xs - 1])"
    by (simp only: zip_drop1_nth)
  then obtain i where i: "i < length xs - 1" "a = xs ! i" "b = xs ! Suc i"
    by auto
  then have "map f xs ! i \<le> map f xs ! Suc i"
    using assms(1) by (intro sorted_nth_mono) auto
  with i show ?thesis by simp
qed

text \<open>
  Claim C6: the regions handed to the editor are, in the order of the sorted segments,
  one region for each index \<open>i\<close> whose segment has count 0 and is a region entry, from
  the position of segment \<open>i\<close> to the position of segment \<open>i + 1\<close>; no other pair gives
  a region, and nothing is merged or dropped. The start positions and the end positions
  of the emitted pairs ascend, and no region ends before it starts.
\<close>

theorem uncovered_regions_of_qualifying_pairs:
  assumes "FileMapping_init nm segs = Inr m"
  shows "draw_uncovered_segments text_point m =
           map (\<lambda>i. Region (text_point (line (segments m ! i) - 1) (col (segments m ! i) - 1))
                           (text_point (line (segments m ! Suc i) - 1)
                                       (col (segments m ! Suc i) - 1)))
               (filter (\<lambda>i. count (segments m ! i) = 0 \<and> isRegionEntry (segments m ! i))
                       [0..<length (segments m) - 1])
       \<and> sorted (map position (segments m))
       \<and> sorted (map (\<lambda>(a, b). position a) (uncovered m))
       \<and> sorted (map (\<lambda>(a, b). position b) (uncovered m))
       \<and> (\<forall>(a, b) \<in> set (uncovered m). position a \<le> position b)"
proof -
  note f = FileMapping_init_fields [OF assms]
  let ?ss = "segments m"
  have srt: "sorted (map position ?ss)" by (simp add: f(1))
  have regions: "draw_uncovered_segments text_point m =
           map (\<lambda>i. Region (text_point (line (?ss ! i) - 1) (col (?ss ! i) - 1))
                           (text_point (line (?ss ! Suc i) - 1) (col (?ss ! Suc i) - 1)))
               (filter (\<lambda>i. count (?ss ! i) = 0 \<and> isRegionEntry (?ss ! i))
                       [0..<length ?ss - 1])"
    unfolding draw_uncovered_segments_def uncovered_def pairwise_segments_def
      zip_drop1_nth filter_map
    by (simp add: comp_def seg_pair_to_region_def)
  have starts: "sorted (map (\<lambda>(a, b). position a) (uncovered m))"
    unfolding uncovered_def pairwise_segments_def
    by (rule sorted_starts_of_filtered_pairs [OF srt])
  have ends: "sorted (map (\<lambda>(a, b). position b) (uncovered m))"
    unfolding uncovered_def pairwise_segments_def
    by (rule sorted_ends_of_filtered_pairs [OF srt])
  have ord: "position a \<le> position b" if "(a, b) \<in> set (uncovered m)" for a b
  proof -
    from that have "(a, b) \<in> set (zip ?ss (drop 1 ?ss))"
      by (simp add: uncovered_def pairwise_segments_def)
    with srt show ?thesis by (rule consecutive_pair_ordered)
  qed
  from regions srt starts ends ord show ?thesis by blast
qed

theorem uncovered_regions_of_qualifying_pairs_witness:
  "FileMapping_init ''f''
     [Seg 1 1 0 True True, Seg 2 5 0 True True, Seg 2 9 4 True True, Seg 3 1 0 True False,
      Seg 4 1 0 True True, Seg 5 1 1 True False] =
     Inr \<lparr>name = ''f'',
          segments = [Seg 1 1 0 True True, Seg 2 5 0 True True, Seg 2 9 4 True True,
                      Seg 3 1 0 True False, Seg 4 1 0 True True, Seg 5 1 1 True False],
          segmentsForLine =
            [(1, [Seg 1 1 0 True True]),
             (2, [Seg 1 1 0 True True, Seg 2 5 0 True True, Seg 2 9 4 True True]),
             (3, [Seg 2 9 4 True True, Seg 3 1 0 True False]),
             (4, [Seg 3 1 0 True False, Seg 4 1 0 True True]),
             (5, [Seg 4 1 0 True True])],
          lineCounts = [(1, 0), (2, 4), (3, 4), (4, 0), (5, 0)],
          maxCount = 4\<rparr>
   \<and> draw_uncovered_segments Pair
       \<lparr>name = ''f'',
          segments = [Seg 1 1 0 True True, Seg 2 5 0 True True, Seg 2 9 4 True True,
                      Seg 3 1 0 True False, Seg 4 1 0 True True, Seg 5 1 1 True False],
          segmentsForLine =
            [(1, [Seg 1 1 0 True True]),
             (2, [Seg 1 1 0 True True, Seg 2 5 0 True True, Seg 2 9 4 True True]),
             (3, [Seg 2 9 4 True True, Seg 3 1 0 True False]),
             (4, [Seg 3 1 0 True False, Seg 4 1 0 True True]),
             (5, [Seg 4 1 0 True True])],
          lineCounts = [(1, 0), (2, 4), (3, 4), (4, 0), (5, 0)],
          maxCount = 4\<rparr>
     = [Region (0, 0) (1, 4), Region (1, 4) (1, 8), Region (3, 0) (4, 0)]"
proof -
  let ?segs = "[Seg 1 1 0 True True, Seg 2 5 0 True True, Seg 2 9 4 True True,
                Seg 3 1 0 True False, Seg 4 1 0 True True, Seg 5 1 1 True False]"
  let ?m = "\<lparr>name = ''f'',
          segments = ?segs,
          segmentsForLine =
            [(1, [Seg 1 1 0 True True]),
             (2, [Seg 1 1 0 True True, Seg 2 5 0 True True, Seg 2 9 4 True True]),
             (3, [Seg 2 9 4 True True, Seg 3 1 0 True False]),
             (4, [Seg 3 1 0 True False, Seg 4 1 0 True True]),
             (5, [Seg 4 1 0 True True])],
          lineCounts = [(1, 0), (2, 4), (3, 4), (4, 0), (5, 0)],
          maxCount = 4\<rparr>"
  have h1: "FileMapping_init ''f'' ?segs = Inr ?m"
    by (simp add: run_simps)
  have idx: "[0..<length (segments ?m) - 1] = [0, 1, 2, 3, 4]"
    by (simp add: upt_rec)
  from uncovered_regions_of_qualifying_pairs [OF h1, of Pair]
  have "draw_uncovered_segments Pair ?m =
          map (\<lambda>i. Region (line (segments ?m ! i) - 1, col (segments ?m ! i) - 1)
                          (line (segments ?m ! Suc i) - 1, col (segments ?m ! Suc i) - 1))
              (filter (\<lambda>i. count (segments ?m ! i) = 0 \<and> isRegionEntry (segments ?m ! i))
                      [0..<length (segments ?m) - 1])"
    by blast
  then have "draw_uncovered_segments Pair ?m =
               [Region (0, 0) (1, 4), Region (1, 4) (1, 8), Region (3, 0) (4, 0)]"
    by (simp only: idx) simp
  with h1 show ?thesis by simp
qed

subsection \<open>Permuted inputs\<close>

lemma sort_key_permuted:
  fixes f :: "'a \<Rightarrow> 'k::linorder"
  assumes "mset xs = mset ys"
    and "distinct (map f xs) \<or> (\<forall>k. filter (\<lambda>x. f x = k) xs = filter (\<lambda>x. f x = k) ys)"
  shows "sort_key f xs = sort_key f ys"
  using assms(2)
proof
  assume "distinct (map f xs)"
  then have "inj_on f (set xs)" by (simp add: distinct_map)
  moreover have "mset xs = mset (sort_key f ys)" using assms(1) by simp
  moreover have "sorted (map f (sort_key f ys))" by simp
  ultimately show ?thesis by (intro sort_key_inj_key_eq)
next
  assume keep: "\<forall>k. filter (\<lambda>x. f x = k) xs = filter (\<lambda>x. f x = k) ys"
  show ?thesis
  proof (rule properties_for_sort_key)
    show "mset (sort_key f ys) = mset xs" using assms(1) by simp
    show "sorted (map f (sort_key f ys))" by simp
    fix k
    have "filter (\<lambda>x. f k = f x) (sort_key f ys) = filter (\<lambda>x. f x = f k) (sort_key f ys)"
      by (simp add: eq_commute)
    also have "\<dots> = filter (\<lambda>x. f x = f k) ys" by (rule sort_key_stable)
    also have "\<dots> = filter (\<lambda>x. f x = f k) xs" using keep by simp
    also have "\<dots> = filter (\<lambda>x. f k = f x) xs" by (simp add: eq_commute)
    finally show "filter (\<lambda>x. f k = f x) (sort_key f ys) = filter (\<lambda>x. f k = f x) xs" .
  qed
qed

lemma FileMapping_init_cong:
  "sort_key position segs1 = sort_key position segs2 \<Longrightarrow>
   FileMapping_init nm segs1 = FileMapping_init nm segs2"
  by (simp add: FileMapping_init_def)

text \<open>
  Claim C3 as stated fails: the sort key is the position alone and the sort is stable, so
  two segments at one position stay in their input order, and the earlier of them is the
  one registered for their line. Swapping them changes the line counts and the maximum.
\<close>

theorem permutation_changes_counts_at_equal_positions:
  "mset [Seg 1 1 5 True True, Seg 1 1 7 True True] =
     mset [Seg 1 1 7 True True, Seg 1 1 5 True True]
   \<and> FileMapping_init ''f'' [Seg 1 1 5 True True, Seg 1 1 7 True True] =
       Inr \<lparr>name = ''f'',
            segments = [Seg 1 1 5 True True, Seg 1 1 7 True True],
            segmentsForLine = [(1, [Seg 1 1 5 True True])],
            lineCounts = [(1, 5)],
            maxCount = 5\<rparr>
   \<and> FileMapping_init ''f'' [Seg 1 1 7 True True, Seg 1 1 5 True True] =
       Inr \<lparr>name = ''f'',
            segments = [Seg 1 1 7 True True, Seg 1 1 5 True True],
            segmentsForLine = [(1, [Seg 1 1 7 True True])],
            lineCounts = [(1, 7)],
            maxCount = 7\<rparr>
   \<and> lineCounts (projr (FileMapping_init ''f'' [Seg 1 1 5 True True, Seg 1 1 7 True True]))
       \<noteq> lineCounts (projr (FileMapping_init ''f'' [Seg 1 1 7 True True, Seg 1 1 5 True True]))
   \<and> maxCount (projr (FileMapping_init ''f'' [Seg 1 1 5 True True, Seg 1 1 7 True True]))
       \<noteq> maxCount (projr (FileMapping_init ''f'' [Seg 1 1 7 True True, Seg 1 1 5 True True]))"
  by (simp add: run_simps add_mset_commute)

text \<open>
  Claim C3, amended: two permutations of the same segments give the same mapping, hence
  the same line counts and the same maximum count, when no two segments share a
  (line, col) position, or when the two inputs list the segments of every position in
  the same relative order.
\<close>

theorem permutation_invariance_when_ties_keep_order:
  assumes "mset segs1 = mset segs2"
    and "distinct (map position segs1)
         \<or> (\<forall>k. filter (\<lambda>x. position x = k) segs1 = filter (\<lambda>x. position x = k) segs2)"
  shows "\<exists>m1 m2. FileMapping_init nm segs1 = Inr m1 \<and> FileMapping_init nm segs2 = Inr m2
           \<and> m1 = m2
           \<and> lineCounts m1 = lineCounts m2 \<and> maxCount m1 = maxCount m2"
proof -
  have "sort_key position segs1 = sort_key position segs2"
    using assms by (rule sort_key_permuted)
  then have same: "FileMapping_init nm segs1 = FileMapping_init nm segs2"
    by (rule FileMapping_init_cong)
  obtain m where m: "FileMapping_init nm segs1 = Inr m"
    by (simp add: FileMapping_init_eq)
  with same have "FileMapping_init nm segs2 = Inr m" by simp
  with m show ?thesis by blast
qed

theorem permutation_invariance_when_ties_keep_order_witness:
  "mset [Seg 3 1 7 True False, Seg 1 1 0 True True, Seg 2 4 6 True True] =
     mset [Seg 2 4 6 True True, Seg 3 1 7 True False, Seg 1 1 0 True True]
   \<and> distinct (map position [Seg 3 1 7 True False, Seg 1 1 0 True True, Seg 2 4 6 True True])
   \<and> FileMapping_init ''f'' [Seg 3 1 7 True False, Seg 1 1 0 True True, Seg 2 4 6 True True] =
       FileMapping_init ''f'' [Seg 2 4 6 True True, Seg 3 1 7 True False, Seg 1 1 0 True True]
   \<and> FileMapping_init ''f'' [Seg 2 4 6 True True, Seg 3 1 7 True False, Seg 1 1 0 True True] =
       Inr \<lparr>name = ''f'',
            segments = [Seg 1 1 0 True True, Seg 2 4 6 True True, Seg 3 1 7 True False],
            segmentsForLine =
              [(1, [Seg 1 1 0 True True]), (2, [Seg 1 1 0 True True, Seg 2 4 6 True True]),
               (3, [Seg 2 4 6 True True])],
            lineCounts = [(1, 0), (2, 6), (3, 6)],
            maxCount = 6\<rparr>"
proof -
  let ?xs = "[Seg 3 1 7 True False, Seg 1 1 0 True True, Seg 2 4 6 True True]"
  let ?ys = "[Seg 2 4 6 True True, Seg 3 1 7 True False, Seg 1 1 0 True True]"
  have h1: "mset ?xs = mset ?ys" by (simp add: add_mset_commute)
  have h2: "distinct (map position ?xs)" by (simp add: position_def)
  have r: "FileMapping_init ''f'' ?ys =
       Inr \<lparr>name = ''f'',
            segments = [Seg 1 1 0 True True, Seg 2 4 6 True True, Seg 3 1 7 True False],
            segmentsForLine =
              [(1, [Seg 1 1 0 True True]), (2, [Seg 1 1 0 True True, Seg 2 4 6 True True]),
               (3, [Seg 2 4 6 True True])],
            lineCounts = [(1, 0), (2, 6), (3, 6)],
            maxCount = 6\<rparr>"
    by (simp add: run_simps)
  from permutation_invariance_when_ties_keep_order [OF h1 disjI1 [OF h2], of "''f''"]
  have "FileMapping_init ''f'' ?xs = FileMapping_init ''f'' ?ys"
    using r by auto
  with h1 h2 r show ?thesis by simp
qed

subsection \<open>The hasCount flag\<close>

lemma insort_key_map_commute:
  assumes "\<And>x. f (g x) = f x"
  shows "insort_key f (g x) (map g ys) = map g (insort_key f x ys)"
  by (induction ys) (simp_all add: assms)

lemma sort_key_map_commute:
  assumes "\<And>x. f (g x) = f x"
  shows "sort_key f (map g xs) = map g (sort_key f xs)"
  by (induction xs) (simp_all add: insort_key_map_commute [of f g, OF assms])

lemma sorted_reverse_map_commute:
  assumes "\<And>x. f (g x) = f x"
  shows "sorted_reverse f (map g xs) = map g (sorted_reverse f xs)"
  by (simp add: sorted_reverse_def rev_map sort_key_map_commute [of f g, OF assms])

lemma dict_append_map_commute:
  "dict_append k (g v) (map (\<lambda>(l, vs). (l, map g vs)) d) =
     map (\<lambda>(l, vs). (l, map g vs)) (dict_append k v d)"
  by (induction k v d rule: dict_append.induct) simp_all

lemma fold_dict_append_map_commute:
  "fold (\<lambda>l. dict_append l (g p)) ls (map (\<lambda>(l, vs). (l, map g vs)) d) =
     map (\<lambda>(l, vs). (l, map g vs)) (fold (\<lambda>l. dict_append l p) ls d)"
  by (induction ls arbitrary: d) (simp_all add: dict_append_map_commute)

lemma register_segments_map_commute:
  assumes "\<And>x. line (g x) = line x" and "\<And>x. col (g x) = col x"
  shows "register_segments (map_option g prev) (map g ss) (map (\<lambda>(l, vs). (l, map g vs)) d) =
           map (\<lambda>(l, vs). (l, map g vs)) (register_segments prev ss d)"
proof (induction ss arbitrary: prev d)
  case Nil
  then show ?case by simp
next
  case (Cons seg ss)
  show ?case
  proof (cases prev)
    case None
    with Cons.IH [of "Some seg" d] show ?thesis by simp
  next
    case (Some p)
    let ?ls = "py_range (line p) (if col seg > 0 then line seg + 1 else line seg)"
    have "register_segments (map_option g prev) (map g (seg # ss))
            (map (\<lambda>(l, vs). (l, map g vs)) d) =
          register_segments (Some (g seg)) (map g ss)
            (fold (\<lambda>l. dict_append l (g p)) ?ls (map (\<lambda>(l, vs). (l, map g vs)) d))"
      using Some by (simp add: Let_def assms)
    also have "\<dots> = register_segments (map_option g (Some seg)) (map g ss)
            (map (\<lambda>(l, vs). (l, map g vs)) (fold (\<lambda>l. dict_append l p) ?ls d))"
      by (simp only: fold_dict_append_map_commute option.map)
    also have "\<dots> = map (\<lambda>(l, vs). (l, map g vs))
            (register_segments (Some seg) ss (fold (\<lambda>l. dict_append l p) ?ls d))"
      by (rule Cons.IH)
    also have "\<dots> = map (\<lambda>(l, vs). (l, map g vs)) (register_segments prev (seg # ss) d)"
      using Some by (simp add: Let_def)
    finally show ?thesis .
  qed
qed

lemma resolved_count_map_commute:
  assumes "\<And>x. isRegionEntry (g x) = isRegionEntry x" and "\<And>x. count (g x) = count x"
  shows "resolved_count (map g vs) = resolved_count vs"
proof (cases vs)
  case Nil
  then show ?thesis by simp
next
  case (Cons v vs')
  have key: "sort_by_entry (g x) = sort_by_entry x" for x
    by (simp add: sort_by_entry_def assms)
  from Cons have "sorted_reverse sort_by_entry vs \<noteq> []"
    by (simp add: sorted_reverse_Nil_iff)
  then show ?thesis
    by (simp add: sorted_reverse_map_commute [of sort_by_entry g, OF key] hd_map assms(2))
qed

lemma draw_uncovered_segments_map_commute:
  assumes "segments m' = map g (segments m)"
    and "\<And>x. line (g x) = line x" and "\<And>x. col (g x) = col x"
    and "\<And>x. count (g x) = count x" and "\<And>x. isRegionEntry (g x) = isRegionEntry x"
  shows "draw_uncovered_segments text_point m' = draw_uncovered_segments text_point m"
proof -
  have "zip (map g (segments m)) (drop 1 (map g (segments m))) =
          map (\<lambda>(a, b). (g a, g b)) (zip (segments m) (drop 1 (segments m)))"
    by (simp only: drop_map zip_map_map)
  then show ?thesis
    unfolding draw_uncovered_segments_def uncovered_def pairwise_segments_def assms(1)
    by (simp add: filter_map comp_def case_prod_unfold seg_pair_to_region_def assms(2-5))
qed

lemma output_of_erased_input:
  assumes "FileMapping_init nm segs = Inr m"
    and "FileMapping_init nm (map (\<lambda>s. s\<lparr>hasCount := False\<rparr>) segs) = Inr m'"
  shows "lineCounts m' = lineCounts m" and "maxCount m' = maxCount m"
    and "draw_uncovered_segments text_point m' = draw_uncovered_segments text_point m"
proof -
  let ?g = "\<lambda>s :: Segment. s\<lparr>hasCount := False\<rparr>"
  note f = FileMapping_init_fields [OF assms(1)]
  note f' = FileMapping_init_fields [OF assms(2)]
  have pos: "position (?g x) = position x" for x by (simp add: position_def)
  have segs: "segments m' = map ?g (segments m)"
    by (simp only: f(1) f'(1) sort_key_map_commute [of position ?g, OF pos])
  have "register_segments (map_option ?g None) (map ?g (segments m))
          (map (\<lambda>(l, vs). (l, map ?g vs)) []) =
        map (\<lambda>(l, vs). (l, map ?g vs)) (register_segments None (segments m) [])"
    by (rule register_segments_map_commute) simp_all
  then have sfl: "segmentsForLine m' = map (\<lambda>(l, vs). (l, map ?g vs)) (segmentsForLine m)"
    by (simp add: f'(2) segs f(2) [symmetric])
  have rc: "resolved_count (map ?g vs) = resolved_count vs" for vs
    by (rule resolved_count_map_commute) simp_all
  show "lineCounts m' = lineCounts m"
    by (simp add: f'(3) f(3) sfl comp_def case_prod_unfold rc)
  show "maxCount m' = maxCount m"
    by (simp add: f'(4) f(4) sfl fold_map comp_def case_prod_unfold rc)
  show "draw_uncovered_segments text_point m' = draw_uncovered_segments text_point m"
    using segs by (rule draw_uncovered_segments_map_commute) simp_all
qed

lemma erased_inputs_equal:
  fixes segs1 segs2 :: "Segment list"
  assumes "list_all2 (\<lambda>a b. line a = line b \<and> col a = col b \<and> count a = count b
                           \<and> isRegionEntry a = isRegionEntry b) segs1 segs2"
  shows "map (\<lambda>s. s\<lparr>hasCount := False\<rparr>) segs1 = map (\<lambda>s. s\<lparr>hasCount := False\<rparr>) segs2"
  using assms
proof (induction rule: list_all2_induct)
  case Nil
  then show ?case by simp
next
  case (Cons a as b bs)
  from Cons.hyps(1) have "a\<lparr>hasCount := False\<rparr> = b\<lparr>hasCount := False\<rparr>"
    by (cases a, cases b) simp
  with Cons.IH show ?case by simp
qed

text \<open>
  Claim C10: two inputs of the same length whose segments agree, position by position,
  in line, col, count and isRegionEntry (so that they differ at most in hasCount) are
  both constructed without error and give the same line counts, the same maximum count
  and the same list of uncovered regions.
\<close>

theorem hasCount_never_influences_output:
  assumes "list_all2 (\<lambda>a b. line a = line b \<and> col a = col b \<and> count a = count b
                           \<and> isRegionEntry a = isRegionEntry b) segs1 segs2"
  shows "\<exists>m1 m2. FileMapping_init nm segs1 = Inr m1 \<and> FileMapping_init nm segs2 = Inr m2
           \<and> lineCounts m1 = lineCounts m2 \<and> maxCount m1 = maxCount m2
           \<and> draw_uncovered_segments text_point m1 = draw_uncovered_segments text_point m2"
proof -
  let ?e = "map (\<lambda>s. s\<lparr>hasCount := False\<rparr>)"
  obtain m1 where m1: "FileMapping_init nm segs1 = Inr m1"
    by (simp add: FileMapping_init_eq)
  obtain m2 where m2: "FileMapping_init nm segs2 = Inr m2"
    by (simp add: FileMapping_init_eq)
  obtain m' where e1: "FileMapping_init nm (?e segs1) = Inr m'"
    by (simp add: FileMapping_init_eq)
  then have e2: "FileMapping_init nm (?e segs2) = Inr m'"
    using erased_inputs_equal [OF assms] by simp
  note o1 = output_of_erased_input [OF m1 e1]
  note o2 = output_of_erased_input [OF m2 e2]
  have "lineCounts m1 = lineCounts m2" using o1(1) o2(1) by simp
  moreover have "maxCount m1 = maxCount m2" using o1(2) o2(2) by simp
  moreover have "draw_uncovered_segments text_point m1 = draw_uncovered_segments text_point m2"
    using o1(3) [of text_point] o2(3) [of text_point] by simp
  ultimately show ?thesis using m1 m2 by blast
qed

theorem hasCount_never_influences_output_witness:
  "list_all2 (\<lambda>a b. line a = line b \<and> col a = col b \<and> count a = count b
                    \<and> isRegionEntry a = isRegionEntry b)
     [Seg 1 1 0 True True, Seg 2 3 4 True True, Seg 3 1 0 False False]
     [Seg 1 1 0 False True, Seg 2 3 4 True True, Seg 3 1 0 True False]
   \<and> lineCounts (projr (FileMapping_init ''f''
        [Seg 1 1 0 True True, Seg 2 3 4 True True, Seg 3 1 0 False False])) =
     lineCounts (projr (FileMapping_init ''f''
        [Seg 1 1 0 False True, Seg 2 3 4 True True, Seg 3 1 0 True False]))
   \<and> maxCount (projr (FileMapping_init ''f''
        [Seg 1 1 0 True True, Seg 2 3 4 True True, Seg 3 1 0 False False])) =
     maxCount (projr (FileMapping_init ''f''
        [Seg 1 1 0 False True, Seg 2 3 4 True True, Seg 3 1 0 True False]))
   \<and> draw_uncovered_segments Pair (projr (FileMapping_init ''f''
        [Seg 1 1 0 True True, Seg 2 3 4 True True, Seg 3 1 0 False False])) =
     draw_uncovered_segments Pair (projr (FileMapping_init ''f''
        [Seg 1 1 0 False True, Seg 2 3 4 True True, Seg 3 1 0 True False]))
   \<and> lineCounts (projr (FileMapping_init ''f''
        [Seg 1 1 0 False True, Seg 2 3 4 True True, Seg 3 1 0 True False])) =
     [(1, 0), (2, 4), (3, 4)]"
proof -
  let ?xs = "[Seg 1 1 0 True True, Seg 2 3 4 True True, Seg 3 1 0 False False]"
  let ?ys = "[Seg 1 1 0 False True, Seg 2 3 4 True True, Seg 3 1 0 True False]"
  have h: "list_all2 (\<lambda>a b. line a = line b \<and> col a = col b \<and> count a = count b
                    \<and> isRegionEntry a = isRegionEntry b) ?xs ?ys"
    by simp
  have r: "lineCounts (projr (FileMapping_init ''f'' ?ys)) = [(1, 0), (2, 4), (3, 4)]"
    by (simp add: run_simps)
  from hasCount_never_influences_output [OF h, of "''f''" Pair] h r
  show ?thesis by auto
qed

end
